theory Spec2Isabelle
  imports Main "HOL-Library.Word" "HOL-Library.Monad_Syntax"
begin

section \<open>Memory model of trans.c\<close>

text \<open>
  Every function of trans.c has the prototype
  \<^verbatim>\<open>f(int M, int N, int A[N][M], int B[M][N])\<close>.
  The two arrays are distinct objects owned by the caller.  A C array \<^verbatim>\<open>int X[R][C]\<close>
  is stored row by row, so \<^verbatim>\<open>X[r][c]\<close> is the cell at offset \<open>r * C + c\<close>.
  The state holds the storage of \<open>A\<close> and of \<open>B\<close> and the text written to \<^verbatim>\<open>stderr\<close>.
  A subscript outside its declared range, or a cell outside the storage, is undefined
  behaviour in C: the model gives it no result (\<open>None\<close>).

  The dimensions and loop counters are C \<^verbatim>\<open>int\<close>s.  They are modelled as unbounded
  integers: every counter of trans.c stays between 0 and the dimension plus the tile
  size, so no counter arithmetic overflows for dimensions that fit an \<^verbatim>\<open>int\<close>.
  The cells are 32-bit \<^verbatim>\<open>int\<close>s; trans.c only copies and compares them.
\<close>

type_synonym cint = "32 word"

record mem =
  matA :: "cint list"
  matB :: "cint list"
  stderr :: string

definition offset :: "int \<Rightarrow> int \<Rightarrow> int \<Rightarrow> nat" where
  "offset cols r c = nat (r * cols + c)"

definition subscripts_ok :: "int \<Rightarrow> int \<Rightarrow> int \<Rightarrow> int \<Rightarrow> bool" where
  "subscripts_ok rows cols r c \<longleftrightarrow> 0 \<le> r \<and> r < rows \<and> 0 \<le> c \<and> c < cols"

text \<open>\<^verbatim>\<open>A[r][c]\<close> as an rvalue, with \<^verbatim>\<open>int A[N][M]\<close>.\<close>

definition load_A :: "int \<Rightarrow> int \<Rightarrow> int \<Rightarrow> int \<Rightarrow> mem \<Rightarrow> cint option" where
  "load_A M N r c s =
     (if subscripts_ok N M r c \<and> offset M r c < length (matA s)
      then Some (matA s ! offset M r c) else None)"

text \<open>\<^verbatim>\<open>B[r][c]\<close> as an rvalue, with \<^verbatim>\<open>int B[M][N]\<close>.\<close>

definition load_B :: "int \<Rightarrow> int \<Rightarrow> int \<Rightarrow> int \<Rightarrow> mem \<Rightarrow> cint option" where
  "load_B M N r c s =
     (if subscripts_ok M N r c \<and> offset N r c < length (matB s)
      then Some (matB s ! offset N r c) else None)"

text \<open>\<^verbatim>\<open>B[r][c] = v\<close>.\<close>

definition store_B :: "int \<Rightarrow> int \<Rightarrow> int \<Rightarrow> int \<Rightarrow> cint \<Rightarrow> mem \<Rightarrow> mem option" where
  "store_B M N r c v s =
     (if subscripts_ok M N r c \<and> offset N r c < length (matB s)
      then Some (s\<lparr>matB := (matB s)[offset N r c := v]\<rparr>) else None)"

text \<open>
  The one assignment statement of the transposers, \<^verbatim>\<open>B[c][r] = A[r][c]\<close>
  (in \<^verbatim>\<open>trans\<close> through the temporary \<^verbatim>\<open>tmp\<close>).
\<close>

definition copy_cell :: "int \<Rightarrow> int \<Rightarrow> int \<Rightarrow> int \<Rightarrow> mem \<Rightarrow> mem option" where
  "copy_cell M N r c s = do { tmp \<leftarrow> load_A M N r c s; store_B M N c r tmp s }"

text \<open>\<^verbatim>\<open>fprintf(stderr, msg)\<close> appends the message to the error stream.\<close>

definition fprintf_stderr :: "string \<Rightarrow> mem \<Rightarrow> mem" where
  "fprintf_stderr msg s = s\<lparr>stderr := stderr s @ msg\<rparr>"

definition msg_dimensions :: string where
  "msg_dimensions =
     ''Invalid matrix dimensions: M and N must be positive integers.'' @ [CHR 0x0A]"

definition msg_square :: string where
  "msg_square =
     ''Input matrices must have square dimensions for transposition.'' @ [CHR 0x0A]"

section \<open>Loops\<close>

text \<open>
  \<^verbatim>\<open>for (x = x0; x < bound; x += step) body\<close>, where the body neither assigns the
  counter nor leaves the loop early.  Each loop of the transposers has this form with
  a literal step of 1, 4 or 8; a loop that would not advance has no result.
\<close>

function for_loop :: "int \<Rightarrow> int \<Rightarrow> int \<Rightarrow> (int \<Rightarrow> 's \<Rightarrow> 's option) \<Rightarrow> 's \<Rightarrow> 's option" where
  "for_loop x bound step body s =
     (if x < bound then
        (if 0 < step then
           (case body x s of None \<Rightarrow> None
            | Some s' \<Rightarrow> for_loop (x + step) bound step body s')
         else None)
      else Some s)"
  by pat_completeness auto
termination
  by (relation "measure (\<lambda>(x, bound, step, body, s). nat (bound - x))") auto

declare for_loop.simps [simp del]

section \<open>The functions of trans.c\<close>

subsection \<open>\<^verbatim>\<open>transpose_submit\<close> (lines 22 to 83)\<close>

definition transpose_submit :: "int \<Rightarrow> int \<Rightarrow> mem \<Rightarrow> mem option" where
  "transpose_submit M N s =
     (if M \<le> 0 \<or> N \<le> 0 then Some (fprintf_stderr msg_dimensions s)
      else if (N = 32 \<or> N = 64) \<and> M = 32 then Some (fprintf_stderr msg_square s)
      else do {
        s1 \<leftarrow> (if M = 32 \<and> N = 32 then
                 for_loop 0 N 8 (\<lambda>i.
                   for_loop 0 M 8 (\<lambda>j.
                     for_loop i (i + 8) 1 (\<lambda>ii t. do {
                       t' \<leftarrow> for_loop j (j + 8) 1 (\<lambda>jj u.
                               if \<not> (ii = jj \<and> i = j) then copy_cell M N ii jj u
                               else Some u) t;
                       if i = j then copy_cell M N ii ii t' else Some t'
                     }))) s
               else Some s);
        s2 \<leftarrow> (if N = 64 \<and> M = 32 then
                 for_loop 0 N 8 (\<lambda>i.
                   for_loop 0 M 4 (\<lambda>j.
                     for_loop i (i + 8) 1 (\<lambda>ii.
                       for_loop j (j + 4) 1 (\<lambda>jj. copy_cell M N ii jj)))) s1
               else Some s1);
        (if M = 64 \<and> N = 64 then
           for_loop 0 N 4 (\<lambda>i.
             for_loop 0 M 4 (\<lambda>j.
               for_loop i (i + 4) 1 (\<lambda>ii t. do {
                 t' \<leftarrow> for_loop j (j + 4) 1 (\<lambda>jj u.
                         if \<not> (ii = jj \<and> i = j) then copy_cell M N ii jj u
                         else Some u) t;
                 if i = j then copy_cell M N ii ii t' else Some t'
               }))) s2
         else Some s2)
      })"

subsection \<open>\<^verbatim>\<open>trans_32x32\<close> (lines 92 to 111)\<close>

definition trans_32x32 :: "int \<Rightarrow> int \<Rightarrow> mem \<Rightarrow> mem option" where
  "trans_32x32 M N s =
     (if M = 32 \<and> N = 32 then
        for_loop 0 N 8 (\<lambda>i.
          for_loop 0 M 8 (\<lambda>j.
            for_loop i (i + 8) 1 (\<lambda>ii t. do {
              t' \<leftarrow> for_loop j (j + 8) 1 (\<lambda>jj u.
                      if \<not> (ii = jj \<and> i = j) then copy_cell M N ii jj u
                      else Some u) t;
              if i = j then copy_cell M N ii ii t' else Some t'
            }))) s
      else Some s)"

subsection \<open>\<^verbatim>\<open>trans_32x64\<close> (lines 119 to 133)\<close>

definition trans_32x64 :: "int \<Rightarrow> int \<Rightarrow> mem \<Rightarrow> mem option" where
  "trans_32x64 M N s =
     (if N = 64 \<and> M = 32 then
        for_loop 0 N 8 (\<lambda>i.
          for_loop 0 M 4 (\<lambda>j.
            for_loop i (i + 8) 1 (\<lambda>ii.
              for_loop j (j + 4) 1 (\<lambda>jj. copy_cell M N ii jj)))) s
      else Some s)"

subsection \<open>\<^verbatim>\<open>trans_64x64\<close> (lines 141 to 160)\<close>

definition trans_64x64 :: "int \<Rightarrow> int \<Rightarrow> mem \<Rightarrow> mem option" where
  "trans_64x64 M N s =
     (if M = 64 \<and> N = 64 then
        for_loop 0 N 4 (\<lambda>i.
          for_loop 0 M 4 (\<lambda>j.
            for_loop i (i + 4) 1 (\<lambda>ii t. do {
              t' \<leftarrow> for_loop j (j + 4) 1 (\<lambda>jj u.
                      if \<not> (ii = jj \<and> i = j) then copy_cell M N ii jj u
                      else Some u) t;
              if i = j then copy_cell M N ii ii t' else Some t'
            }))) s
      else Some s)"

subsection \<open>\<^verbatim>\<open>trans\<close> (lines 169 to 180)\<close>

definition trans :: "int \<Rightarrow> int \<Rightarrow> mem \<Rightarrow> mem option" where
  "trans M N s =
     for_loop 0 N 1 (\<lambda>i.
       for_loop 0 M 1 (\<lambda>j. copy_cell M N i j)) s"

subsection \<open>\<^verbatim>\<open>is_transpose\<close> (lines 189 to 201)\<close>

text \<open>
  The loops of \<^verbatim>\<open>is_transpose\<close> leave the function from inside the body.  The inner
  loop yields \<open>Some 0\<close> when \<^verbatim>\<open>return 0\<close> was executed and \<open>None\<close> when it ran to its
  end; the function yields the returned \<^verbatim>\<open>int\<close> together with the memory it leaves.
\<close>

function is_transpose_j :: "int \<Rightarrow> int \<Rightarrow> int \<Rightarrow> int \<Rightarrow> mem \<Rightarrow> (int option \<times> mem) option" where
  "is_transpose_j M N i j s =
     (if j < M then do {
        a \<leftarrow> load_A M N i j s;
        b \<leftarrow> load_B M N j i s;
        if a \<noteq> b then Some (Some 0, s)
        else is_transpose_j M N i (j + 1) s
      }
      else Some (None, s))"
  by pat_completeness auto
termination
  by (relation "measure (\<lambda>(M, N, i, j, s). nat (M - j))") auto

function is_transpose_i :: "int \<Rightarrow> int \<Rightarrow> int \<Rightarrow> mem \<Rightarrow> (int \<times> mem) option" where
  "is_transpose_i M N i s =
     (if i < N then do {
        (ret, s') \<leftarrow> is_transpose_j M N i 0 s;
        case ret of Some v \<Rightarrow> Some (v, s')
        | None \<Rightarrow> is_transpose_i M N (i + 1) s'
      }
      else Some (1, s))"
  by pat_completeness auto
termination
  by (relation "measure (\<lambda>(M, N, i, s). nat (N - i))") auto

declare is_transpose_j.simps [simp del] is_transpose_i.simps [simp del]

definition is_transpose :: "int \<Rightarrow> int \<Rightarrow> mem \<Rightarrow> (int \<times> mem) option" where
  "is_transpose M N s = is_transpose_i M N 0 s"

section \<open>Vocabulary of the proofs\<close>

text \<open>
  The storage has the size of the declared arrays: \<open>N * M\<close> cells for \<open>A\<close> and
  \<open>M * N\<close> cells for \<open>B\<close>.
\<close>

definition well_sized :: "int \<Rightarrow> int \<Rightarrow> mem \<Rightarrow> bool" where
  "well_sized M N s \<longleftrightarrow> length (matA s) = nat (N * M) \<and> length (matB s) = nat (M * N)"

text \<open>
  \<open>copied M N S s0 s\<close>: state \<open>s\<close> is state \<open>s0\<close> after \<^verbatim>\<open>B[j][i] = A[i][j]\<close> has been
  executed for exactly the cells \<open>(i, j)\<close> of \<open>S\<close>; \<open>A\<close> and the error stream are as in
  \<open>s0\<close>, and so is every other cell of \<open>B\<close>.
\<close>

definition copied :: "int \<Rightarrow> int \<Rightarrow> (int \<times> int) set \<Rightarrow> mem \<Rightarrow> mem \<Rightarrow> bool" where
  "copied M N S s0 s \<longleftrightarrow>
     matA s = matA s0 \<and> stderr s = stderr s0 \<and> length (matB s) = length (matB s0) \<and>
     (\<forall>r c. subscripts_ok M N r c \<longrightarrow>
        matB s ! offset N r c =
          (if (c, r) \<in> S then matA s0 ! offset M c r else matB s0 ! offset N r c))"

text \<open>The shapes the header comment of \<^verbatim>\<open>transpose_submit\<close> names (lines 18 to 20).\<close>

definition supported_shape :: "int \<Rightarrow> int \<Rightarrow> bool" where
  "supported_shape M N \<longleftrightarrow> (M = 32 \<and> N = 32) \<or> (M = 32 \<and> N = 64) \<or> (M = 64 \<and> N = 64)"

text \<open>
  The compatibility check of \<^verbatim>\<open>transpose_submit\<close> (lines 30 to 34) rejects a call when
  the call prints the check's diagnostic and returns with nothing else changed.
\<close>

definition shape_check_rejects :: "int \<Rightarrow> int \<Rightarrow> mem \<Rightarrow> bool" where
  "shape_check_rejects M N s \<longleftrightarrow> transpose_submit M N s = Some (fprintf_stderr msg_square s)"

text \<open>
  A 32 by 32 input whose only non-zero cell is \<^verbatim>\<open>A[0][1]\<close>, with \<open>B\<close> zeroed: \<open>B\<close> is
  not yet the transpose of \<open>A\<close>.
\<close>

definition failing_32x32 :: mem where
  "failing_32x32 = \<lparr>matA = (replicate 1024 0)[1 := 1], matB = replicate 1024 0, stderr = []\<rparr>"

text \<open>
  A 64 by 64 input whose only non-zero cell is \<^verbatim>\<open>A[0][1]\<close>, with \<open>B\<close> zeroed and
  nothing printed yet.
\<close>

definition one_cell_64x64 :: mem where
  "one_cell_64x64 = \<lparr>matA = (replicate 4096 0)[1 := 1], matB = replicate 4096 0, stderr = []\<rparr>"

section \<open>Row-major addressing\<close>

lemma offset_inj:
  assumes "0 \<le> r" "0 \<le> c" "c < cols" "0 \<le> r'" "0 \<le> c'" "c' < cols"
  shows "offset cols r c = offset cols r' c' \<longleftrightarrow> r = r' \<and> c = c'"
proof
  assume eq: "offset cols r c = offset cols r' c'"
  have nn: "0 \<le> r * cols + c" "0 \<le> r' * cols + c'" using assms by simp_all
  with eq have e: "r * cols + c = r' * cols + c'" by (simp add: offset_def)
  have pos: "0 < cols" using assms by linarith
  have "(r * cols + c) div cols = r" "(r * cols + c) mod cols = c"
    using assms pos by simp_all
  moreover have "(r' * cols + c') div cols = r'" "(r' * cols + c') mod cols = c'"
    using assms pos by simp_all
  ultimately show "r = r' \<and> c = c'" using e by metis
qed simp

lemma offset_less:
  assumes "0 \<le> r" "r < rows" "0 \<le> c" "c < cols"
  shows "offset cols r c < nat (rows * cols)"
proof -
  have "r + 1 \<le> rows" using assms by simp
  then have "(r + 1) * cols \<le> rows * cols" using assms by (intro mult_right_mono) simp_all
  then have "r * cols + c < rows * cols" using assms by (simp add: algebra_simps)
  moreover have "0 \<le> r * cols + c" using assms by simp
  ultimately show ?thesis by (simp add: offset_def)
qed

section \<open>Copying one cell\<close>

lemma copied_refl: "copied M N {} s s"
  by (simp add: copied_def)

lemma copy_cell_copied:
  assumes ws: "well_sized M N s0" and c: "copied M N S s0 s" and ok: "subscripts_ok N M i j"
  shows "\<exists>s'. copy_cell M N i j s = Some s' \<and> copied M N (insert (i, j) S) s0 s'"
proof -
  have la: "offset M i j < length (matA s)"
    using offset_less[of i N j M] ok ws c by (simp add: subscripts_ok_def well_sized_def copied_def)
  have lb: "offset N j i < length (matB s)"
    using offset_less[of j M i N] ok ws c by (simp add: subscripts_ok_def well_sized_def copied_def)
  have ok': "subscripts_ok M N j i" using ok by (auto simp: subscripts_ok_def)
  let ?s' = "s\<lparr>matB := (matB s)[offset N j i := matA s ! offset M i j]\<rparr>"
  have run: "copy_cell M N i j s = Some ?s'"
    using la lb ok ok' by (simp add: copy_cell_def load_A_def store_B_def)
  have "copied M N (insert (i, j) S) s0 ?s'"
    unfolding copied_def
  proof (intro conjI allI impI)
    fix r c assume rc: "subscripts_ok M N r c"
    have inj: "offset N r c = offset N j i \<longleftrightarrow> r = j \<and> c = i"
      using offset_inj[of r c N j i] rc ok by (auto simp: subscripts_ok_def)
    show "matB ?s' ! offset N r c =
        (if (c, r) \<in> insert (i, j) S then matA s0 ! offset M c r else matB s0 ! offset N r c)"
    proof (cases "r = j \<and> c = i")
      case True
      then show ?thesis using lb c by (simp add: copied_def)
    next
      case False
      then have "offset N j i \<noteq> offset N r c" using inj by auto
      then show ?thesis using c rc False by (auto simp: copied_def)
    qed
  qed (use c in \<open>simp_all add: copied_def\<close>)
  with run show ?thesis by blast
qed

section \<open>Loop rules\<close>

lemma for_loop_inv:
  assumes step: "0 < step"
    and init: "I x s"
    and body: "\<And>y u. I y u \<Longrightarrow> y < bound \<Longrightarrow> \<exists>u'. body y u = Some u' \<and> I (y + step) u'"
  shows "\<exists>s' y. for_loop x bound step body s = Some s' \<and> I y s' \<and> bound \<le> y"
  using assms
proof (induction x bound step body s rule: for_loop.induct)
  case (1 x bound step body s)
  show ?case
  proof (cases "x < bound")
    case True
    from "1.prems"(3)[OF "1.prems"(2) True] obtain u'
      where u': "body x s = Some u'" "I (x + step) u'"
      by blast
    from "1.IH"[OF True "1.prems"(1) u'(1) "1.prems"(1) u'(2) "1.prems"(3)] obtain s' y where
      "for_loop (x + step) bound step body u' = Some s'" "I y s'" "bound \<le> y" by blast
    then show ?thesis using True "1.prems"(1) u'(1) by (subst for_loop.simps) auto
  next
    case False
    then show ?thesis using "1.prems" by (subst for_loop.simps) auto
  qed
qed

lemma for_loop_preserves:
  assumes body: "\<And>y u u'. body y u = Some u' \<Longrightarrow> P u \<Longrightarrow> P u'"
    and run: "for_loop x bound step body s = Some s'" and init: "P s"
  shows "P s'"
  using assms
proof (induction x bound step body s rule: for_loop.induct)
  case (1 x bound step body s)
  show ?case
  proof (cases "x < bound \<and> 0 < step")
    case True
    with "1.prems"(2) obtain u where u: "body x s = Some u"
      and rest: "for_loop (x + step) bound step body u = Some s'"
      by (subst (asm) for_loop.simps) (auto split: option.splits)
    from "1.prems"(1)[OF u "1.prems"(3)] have "P u" .
    with "1.IH" True u rest "1.prems"(1) show ?thesis by blast
  next
    case False
    with "1.prems" show ?thesis by (subst (asm) for_loop.simps) (auto split: if_splits)
  qed
qed

section \<open>The tiled loop nest without diagonal handling\<close>

lemma copied_eq: "copied M N S s0 s \<Longrightarrow> S = S' \<Longrightarrow> copied M N S' s0 s"
  by simp

lemma plain_jj:
  assumes ws: "well_sized M N s0" and c: "copied M N S s0 s"
    and ii: "0 \<le> ii" "ii < N" and j: "0 \<le> j" "0 \<le> w" "j + w \<le> M"
  shows "\<exists>s'. for_loop j (j + w) 1 (\<lambda>jj. copy_cell M N ii jj) s = Some s' \<and>
           copied M N (S \<union> {ii} \<times> {j..<j + w}) s0 s'"
proof -
  let ?I = "\<lambda>y u. j \<le> y \<and> y \<le> j + w \<and> copied M N (S \<union> {ii} \<times> {j..<y}) s0 u"
  have init: "?I j s" using c j by simp
  have body: "\<exists>u'. copy_cell M N ii y u = Some u' \<and> ?I (y + 1) u'"
    if "?I y u" "y < j + w" for y u
  proof -
    have ok: "subscripts_ok N M ii y" using that ii j by (simp add: subscripts_ok_def)
    from copy_cell_copied[OF ws _ ok] that obtain u' where
      u': "copy_cell M N ii y u = Some u'"
        "copied M N (insert (ii, y) (S \<union> {ii} \<times> {j..<y})) s0 u'" by blast
    have "insert (ii, y) (S \<union> {ii} \<times> {j..<y}) = S \<union> {ii} \<times> {j..<y + 1}"
      using that by auto
    with u' that show ?thesis by simp
  qed
  from for_loop_inv[where I = ?I and body = "copy_cell M N ii", OF _ init body, of "j + w"] obtain s' y where
    "for_loop j (j + w) 1 (\<lambda>jj. copy_cell M N ii jj) s = Some s'" "?I y s'" "j + w \<le> y"
    by auto
  moreover from this have "y = j + w" by simp
  ultimately show ?thesis by auto
qed

lemma plain_ii:
  assumes ws: "well_sized M N s0" and c: "copied M N S s0 s"
    and i: "0 \<le> i" "0 \<le> h" "i + h \<le> N" and j: "0 \<le> j" "0 \<le> w" "j + w \<le> M"
  shows "\<exists>s'. for_loop i (i + h) 1 (\<lambda>ii.
                 for_loop j (j + w) 1 (\<lambda>jj. copy_cell M N ii jj)) s = Some s' \<and>
           copied M N (S \<union> {i..<i + h} \<times> {j..<j + w}) s0 s'"
proof -
  let ?body = "\<lambda>ii. for_loop j (j + w) 1 (\<lambda>jj. copy_cell M N ii jj)"
  let ?I = "\<lambda>y u. i \<le> y \<and> y \<le> i + h \<and> copied M N (S \<union> {i..<y} \<times> {j..<j + w}) s0 u"
  have init: "?I i s" using c i by simp
  have body: "\<exists>u'. ?body y u = Some u' \<and> ?I (y + 1) u'"
    if "?I y u" "y < i + h" for y u
  proof -
    from plain_jj[OF ws _ _ _ j, of _ u y] that i obtain u' where
      u': "?body y u = Some u'"
        "copied M N ((S \<union> {i..<y} \<times> {j..<j + w}) \<union> {y} \<times> {j..<j + w}) s0 u'" by auto
    have "(S \<union> {i..<y} \<times> {j..<j + w}) \<union> {y} \<times> {j..<j + w} = S \<union> {i..<y + 1} \<times> {j..<j + w}"
      using that by auto
    with u' that show ?thesis by simp
  qed
  from for_loop_inv[where I = ?I and body = ?body, OF _ init body, of "i + h"] obtain s' y where
    "for_loop i (i + h) 1 ?body s = Some s'" "?I y s'" "i + h \<le> y"
    by auto
  moreover from this have "y = i + h" by simp
  ultimately show ?thesis by auto
qed

lemma tile_step:
  assumes "0 < (t::int)" "t dvd y" "t dvd B" "y < B"
  shows "y + t \<le> B"
proof -
  have "t dvd B - y" using assms by simp
  moreover have "0 < B - y" using assms by simp
  ultimately have "t \<le> B - y" by (rule zdvd_imp_le)
  then show ?thesis by simp
qed

lemma plain_j:
  assumes ws: "well_sized M N s0" and c: "copied M N S s0 s"
    and i: "0 \<le> i" "0 \<le> h" "i + h \<le> N" and w: "0 < w" "w dvd M" "0 \<le> M"
  shows "\<exists>s'. for_loop 0 M w (\<lambda>j.
                 for_loop i (i + h) 1 (\<lambda>ii.
                   for_loop j (j + w) 1 (\<lambda>jj. copy_cell M N ii jj))) s = Some s' \<and>
           copied M N (S \<union> {i..<i + h} \<times> {0..<M}) s0 s'"
proof -
  let ?body = "\<lambda>j. for_loop i (i + h) 1 (\<lambda>ii.
                   for_loop j (j + w) 1 (\<lambda>jj. copy_cell M N ii jj))"
  let ?I = "\<lambda>y u. 0 \<le> y \<and> y \<le> M \<and> w dvd y \<and> copied M N (S \<union> {i..<i + h} \<times> {0..<y}) s0 u"
  have init: "?I 0 s" using c w by simp
  have body: "\<exists>u'. ?body y u = Some u' \<and> ?I (y + w) u'"
    if "?I y u" "y < M" for y u
  proof -
    have le: "y + w \<le> M" using tile_step[of w y M] that w by simp
    from plain_ii[OF ws _ i, of _ u y w] that w le obtain u' where
      u': "?body y u = Some u'"
        "copied M N ((S \<union> {i..<i + h} \<times> {0..<y}) \<union> {i..<i + h} \<times> {y..<y + w}) s0 u'" by auto
    have "(S \<union> {i..<i + h} \<times> {0..<y}) \<union> {i..<i + h} \<times> {y..<y + w}
            = S \<union> {i..<i + h} \<times> {0..<y + w}"
      using that w by auto
    with u' that w le show ?thesis by simp
  qed
  from for_loop_inv[where I = ?I and body = ?body, OF w(1) init body, of M] obtain s' y where
    "for_loop 0 M w ?body s = Some s'" "?I y s'" "M \<le> y"
    by auto
  moreover from this have "y = M" by simp
  ultimately show ?thesis by auto
qed

lemma plain_i:
  assumes ws: "well_sized M N s0" and c: "copied M N S s0 s"
    and h: "0 < h" "h dvd N" "0 \<le> N" and w: "0 < w" "w dvd M" "0 \<le> M"
  shows "\<exists>s'. for_loop 0 N h (\<lambda>i.
                 for_loop 0 M w (\<lambda>j.
                   for_loop i (i + h) 1 (\<lambda>ii.
                     for_loop j (j + w) 1 (\<lambda>jj. copy_cell M N ii jj)))) s = Some s' \<and>
           copied M N (S \<union> {0..<N} \<times> {0..<M}) s0 s'"
proof -
  let ?body = "\<lambda>i. for_loop 0 M w (\<lambda>j.
                   for_loop i (i + h) 1 (\<lambda>ii.
                     for_loop j (j + w) 1 (\<lambda>jj. copy_cell M N ii jj)))"
  let ?I = "\<lambda>y u. 0 \<le> y \<and> y \<le> N \<and> h dvd y \<and> copied M N (S \<union> {0..<y} \<times> {0..<M}) s0 u"
  have init: "?I 0 s" using c h by simp
  have body: "\<exists>u'. ?body y u = Some u' \<and> ?I (y + h) u'"
    if "?I y u" "y < N" for y u
  proof -
    have le: "y + h \<le> N" using tile_step[of h y N] that h by simp
    from plain_j[OF ws _ _ _ le w, of _ u] that h obtain u' where
      u': "?body y u = Some u'"
        "copied M N ((S \<union> {0..<y} \<times> {0..<M}) \<union> {y..<y + h} \<times> {0..<M}) s0 u'" by auto
    have "(S \<union> {0..<y} \<times> {0..<M}) \<union> {y..<y + h} \<times> {0..<M} = S \<union> {0..<y + h} \<times> {0..<M}"
      using that h by auto
    with u' that h le show ?thesis by simp
  qed
  from for_loop_inv[where I = ?I and body = ?body, OF h(1) init body, of N] obtain s' y where
    "for_loop 0 N h ?body s = Some s'" "?I y s'" "N \<le> y"
    by auto
  moreover from this have "y = N" by simp
  ultimately show ?thesis by auto
qed

section \<open>The tiled loop nest that defers the diagonal\<close>

lemma diag_jj:
  assumes ws: "well_sized M N s0" and c: "copied M N S s0 s"
    and ii: "0 \<le> ii" "ii < N" and j: "0 \<le> j" "0 \<le> t" "j + t \<le> M"
  shows "\<exists>s'. for_loop j (j + t) 1 (\<lambda>jj u.
                 if \<not> (ii = jj \<and> i = j) then copy_cell M N ii jj u else Some u) s = Some s' \<and>
           copied M N (S \<union> {ii} \<times> {c \<in> {j..<j + t}. \<not> (ii = c \<and> i = j)}) s0 s'"
proof -
  let ?body = "\<lambda>jj u. if \<not> (ii = jj \<and> i = j) then copy_cell M N ii jj u else Some u"
  let ?D = "\<lambda>y. {ii} \<times> {c \<in> {j..<y}. \<not> (ii = c \<and> i = j)}"
  let ?I = "\<lambda>y u. j \<le> y \<and> y \<le> j + t \<and> copied M N (S \<union> ?D y) s0 u"
  have init: "?I j s" using c j by simp
  have body: "\<exists>u'. ?body y u = Some u' \<and> ?I (y + 1) u'"
    if "?I y u" "y < j + t" for y u
  proof (cases "ii = y \<and> i = j")
    case True
    then have "?D (y + 1) = ?D y" using that by auto
    with True that show ?thesis by simp
  next
    case False
    have ok: "subscripts_ok N M ii y" using that ii j by (simp add: subscripts_ok_def)
    from copy_cell_copied[OF ws _ ok] that obtain u' where
      u': "copy_cell M N ii y u = Some u'"
        "copied M N (insert (ii, y) (S \<union> ?D y)) s0 u'" by blast
    have "insert (ii, y) (S \<union> ?D y) = S \<union> ?D (y + 1)"
      using that False by auto
    with u' that False show ?thesis by simp
  qed
  from for_loop_inv[where I = ?I and body = ?body, OF _ init body, of "j + t"] obtain s' y where
    "for_loop j (j + t) 1 ?body s = Some s'" "?I y s'" "j + t \<le> y"
    by auto
  moreover from this have "y = j + t" by simp
  ultimately show ?thesis by auto
qed

lemma diag_row:
  assumes ws: "well_sized M N s0" and c: "copied M N S s0 s"
    and ii: "0 \<le> ii" "ii < N" and j: "0 \<le> j" "0 \<le> t" "j + t \<le> M"
    and d: "i = j \<longrightarrow> j \<le> ii \<and> ii < j + t"
  shows "\<exists>s'. do {
             t' \<leftarrow> for_loop j (j + t) 1 (\<lambda>jj u.
                     if \<not> (ii = jj \<and> i = j) then copy_cell M N ii jj u else Some u) s;
             if i = j then copy_cell M N ii ii t' else Some t'
           } = Some s' \<and>
           copied M N (S \<union> {ii} \<times> {j..<j + t}) s0 s'"
proof -
  let ?D = "{ii} \<times> {c \<in> {j..<j + t}. \<not> (ii = c \<and> i = j)}"
  from diag_jj[OF ws c ii j, of i] obtain u where
    u: "for_loop j (j + t) 1 (\<lambda>jj u.
          if \<not> (ii = jj \<and> i = j) then copy_cell M N ii jj u else Some u) s = Some u"
       "copied M N (S \<union> ?D) s0 u" by blast
  show ?thesis
  proof (cases "i = j")
    case True
    with d have r: "j \<le> ii" "ii < j + t" by simp_all
    then have ok: "subscripts_ok N M ii ii" using ii j by (simp add: subscripts_ok_def)
    from copy_cell_copied[OF ws u(2) ok] obtain u' where
      u': "copy_cell M N ii ii u = Some u'" "copied M N (insert (ii, ii) (S \<union> ?D)) s0 u'"
      by blast
    have "insert (ii, ii) (S \<union> ?D) = S \<union> {ii} \<times> {j..<j + t}" using r by auto
    with u u' True show ?thesis by simp
  next
    case False
    then have "S \<union> ?D = S \<union> {ii} \<times> {j..<j + t}" by auto
    with u False show ?thesis by simp
  qed
qed

lemma diag_ii:
  assumes ws: "well_sized M N s0" and c: "copied M N S s0 s"
    and i: "0 \<le> i" "i + t \<le> N" and j: "0 \<le> j" "0 \<le> t" "j + t \<le> M"
  shows "\<exists>s'. for_loop i (i + t) 1 (\<lambda>ii u. do {
                 u' \<leftarrow> for_loop j (j + t) 1 (\<lambda>jj v.
                         if \<not> (ii = jj \<and> i = j) then copy_cell M N ii jj v else Some v) u;
                 if i = j then copy_cell M N ii ii u' else Some u'
               }) s = Some s' \<and>
           copied M N (S \<union> {i..<i + t} \<times> {j..<j + t}) s0 s'"
proof -
  let ?body = "\<lambda>ii u. do {
                 u' \<leftarrow> for_loop j (j + t) 1 (\<lambda>jj v.
                         if \<not> (ii = jj \<and> i = j) then copy_cell M N ii jj v else Some v) u;
                 if i = j then copy_cell M N ii ii u' else Some u'
               }"
  let ?I = "\<lambda>y u. i \<le> y \<and> y \<le> i + t \<and> copied M N (S \<union> {i..<y} \<times> {j..<j + t}) s0 u"
  have init: "?I i s" using c j by simp
  have body: "\<exists>u'. ?body y u = Some u' \<and> ?I (y + 1) u'"
    if "?I y u" "y < i + t" for y u
  proof -
    have d: "i = j \<longrightarrow> j \<le> y \<and> y < j + t" using that by simp
    from diag_row[OF ws _ _ _ j d, of _ u] that i obtain u' where
      u': "?body y u = Some u'"
        "copied M N ((S \<union> {i..<y} \<times> {j..<j + t}) \<union> {y} \<times> {j..<j + t}) s0 u'" by auto
    have "(S \<union> {i..<y} \<times> {j..<j + t}) \<union> {y} \<times> {j..<j + t} = S \<union> {i..<y + 1} \<times> {j..<j + t}"
      using that by auto
    with u' that show ?thesis by simp
  qed
  from for_loop_inv[where I = ?I and body = ?body, OF _ init body, of "i + t"] obtain s' y where
    "for_loop i (i + t) 1 ?body s = Some s'" "?I y s'" "i + t \<le> y"
    by auto
  moreover from this have "y = i + t" by simp
  ultimately show ?thesis by auto
qed

lemma diag_j:
  assumes ws: "well_sized M N s0" and c: "copied M N S s0 s"
    and i: "0 \<le> i" "i + t \<le> N" and t: "0 < t" "t dvd M" "0 \<le> M"
  shows "\<exists>s'. for_loop 0 M t (\<lambda>j.
                 for_loop i (i + t) 1 (\<lambda>ii u. do {
                   u' \<leftarrow> for_loop j (j + t) 1 (\<lambda>jj v.
                           if \<not> (ii = jj \<and> i = j) then copy_cell M N ii jj v else Some v) u;
                   if i = j then copy_cell M N ii ii u' else Some u'
                 })) s = Some s' \<and>
           copied M N (S \<union> {i..<i + t} \<times> {0..<M}) s0 s'"
proof -
  let ?body = "\<lambda>j. for_loop i (i + t) 1 (\<lambda>ii u. do {
                   u' \<leftarrow> for_loop j (j + t) 1 (\<lambda>jj v.
                           if \<not> (ii = jj \<and> i = j) then copy_cell M N ii jj v else Some v) u;
                   if i = j then copy_cell M N ii ii u' else Some u'
                 })"
  let ?I = "\<lambda>y u. 0 \<le> y \<and> y \<le> M \<and> t dvd y \<and> copied M N (S \<union> {i..<i + t} \<times> {0..<y}) s0 u"
  have init: "?I 0 s" using c t by simp
  have body: "\<exists>u'. ?body y u = Some u' \<and> ?I (y + t) u'"
    if "?I y u" "y < M" for y u
  proof -
    have le: "y + t \<le> M" using tile_step[of t y M] that t by simp
    from diag_ii[OF ws _ i, of _ u y] that t le obtain u' where
      u': "?body y u = Some u'"
        "copied M N ((S \<union> {i..<i + t} \<times> {0..<y}) \<union> {i..<i + t} \<times> {y..<y + t}) s0 u'" by auto
    have "(S \<union> {i..<i + t} \<times> {0..<y}) \<union> {i..<i + t} \<times> {y..<y + t}
            = S \<union> {i..<i + t} \<times> {0..<y + t}"
      using that t by auto
    with u' that t le show ?thesis by simp
  qed
  from for_loop_inv[where I = ?I and body = ?body, OF t(1) init body, of M] obtain s' y where
    "for_loop 0 M t ?body s = Some s'" "?I y s'" "M \<le> y"
    by auto
  moreover from this have "y = M" by simp
  ultimately show ?thesis by auto
qed

lemma diag_i:
  assumes ws: "well_sized M N s0" and c: "copied M N S s0 s"
    and t: "0 < t" "t dvd M" "0 \<le> M" "t dvd N" "0 \<le> N"
  shows "\<exists>s'. for_loop 0 N t (\<lambda>i.
                 for_loop 0 M t (\<lambda>j.
                   for_loop i (i + t) 1 (\<lambda>ii u. do {
                     u' \<leftarrow> for_loop j (j + t) 1 (\<lambda>jj v.
                             if \<not> (ii = jj \<and> i = j) then copy_cell M N ii jj v else Some v) u;
                     if i = j then copy_cell M N ii ii u' else Some u'
                   }))) s = Some s' \<and>
           copied M N (S \<union> {0..<N} \<times> {0..<M}) s0 s'"
proof -
  let ?body = "\<lambda>i. for_loop 0 M t (\<lambda>j.
                   for_loop i (i + t) 1 (\<lambda>ii u. do {
                     u' \<leftarrow> for_loop j (j + t) 1 (\<lambda>jj v.
                             if \<not> (ii = jj \<and> i = j) then copy_cell M N ii jj v else Some v) u;
                     if i = j then copy_cell M N ii ii u' else Some u'
                   }))"
  let ?I = "\<lambda>y u. 0 \<le> y \<and> y \<le> N \<and> t dvd y \<and> copied M N (S \<union> {0..<y} \<times> {0..<M}) s0 u"
  have init: "?I 0 s" using c t by simp
  have body: "\<exists>u'. ?body y u = Some u' \<and> ?I (y + t) u'"
    if "?I y u" "y < N" for y u
  proof -
    have le: "y + t \<le> N" using tile_step[of t y N] that t by simp
    from diag_j[OF ws _ _ le t(1,2,3), of _ u] that obtain u' where
      u': "?body y u = Some u'"
        "copied M N ((S \<union> {0..<y} \<times> {0..<M}) \<union> {y..<y + t} \<times> {0..<M}) s0 u'" by auto
    have "(S \<union> {0..<y} \<times> {0..<M}) \<union> {y..<y + t} \<times> {0..<M} = S \<union> {0..<y + t} \<times> {0..<M}"
      using that t by auto
    with u' that t le show ?thesis by simp
  qed
  from for_loop_inv[where I = ?I and body = ?body, OF t(1) init body, of N] obtain s' y where
    "for_loop 0 N t ?body s = Some s'" "?I y s'" "N \<le> y"
    by auto
  moreover from this have "y = N" by simp
  ultimately show ?thesis by auto
qed

section \<open>Whole-matrix results\<close>

lemma full_copy:
  assumes "copied M N ({0..<N} \<times> {0..<M}) s s'"
  shows "matA s' = matA s" "stderr s' = stderr s" "length (matB s') = length (matB s)"
    "\<forall>i j. 0 \<le> i \<and> i < N \<and> 0 \<le> j \<and> j < M \<longrightarrow> matB s' ! offset N j i = matA s ! offset M i j"
  using assms by (auto simp: copied_def subscripts_ok_def)

lemma offset_onto:
  assumes "0 < cols" "k < nat (rows * cols)"
  shows "\<exists>r c. subscripts_ok rows cols r c \<and> k = offset cols r c"
proof -
  let ?r = "int k div cols" and ?c = "int k mod cols"
  have k: "int k < rows * cols" using assms by simp
  have "0 \<le> ?r" using assms by (simp add: pos_imp_zdiv_nonneg_iff)
  moreover have "?r < rows"
  proof -
    have "?r * cols + ?c = int k" by simp
    moreover have "0 \<le> ?c" using assms by simp
    ultimately have "?r * cols \<le> int k" by linarith
    with k have lt: "?r * cols < rows * cols" by linarith
    show ?thesis by (rule mult_right_less_imp_less[OF lt]) (use assms in simp)
  qed
  moreover have "0 \<le> ?c" "?c < cols" using assms by simp_all
  moreover have "k = offset cols ?r ?c" by (simp add: offset_def)
  ultimately show ?thesis unfolding subscripts_ok_def by blast
qed

lemma copied_unique:
  assumes ws: "well_sized M N s" and pos: "0 < N"
    and c1: "copied M N S s s1" and c2: "copied M N S s s2"
  shows "s1 = s2"
proof -
  have "matB s1 = matB s2"
  proof (rule nth_equalityI)
    show "length (matB s1) = length (matB s2)" using c1 c2 by (simp add: copied_def)
  next
    fix k assume "k < length (matB s1)"
    then have "k < nat (M * N)" using c1 ws by (simp add: copied_def well_sized_def)
    from offset_onto[OF pos this] obtain r c where
      rc: "subscripts_ok M N r c" "k = offset N r c" by blast
    with c1 c2 show "matB s1 ! k = matB s2 ! k" by (simp add: copied_def)
  qed
  moreover have "matA s1 = matA s2" "stderr s1 = stderr s2"
    using c1 c2 by (simp_all add: copied_def)
  ultimately show ?thesis by simp
qed

lemma trans_32x32_copied:
  assumes "well_sized 32 32 s"
  shows "\<exists>s'. trans_32x32 32 32 s = Some s' \<and> copied 32 32 ({0..<32} \<times> {0..<32}) s s'"
  using diag_i[OF assms copied_refl, of 8] by (simp add: trans_32x32_def)

lemma trans_32x64_copied:
  assumes "well_sized 32 64 s"
  shows "\<exists>s'. trans_32x64 32 64 s = Some s' \<and> copied 32 64 ({0..<64} \<times> {0..<32}) s s'"
  using plain_i[OF assms copied_refl, of 8 4] by (simp add: trans_32x64_def)

lemma trans_64x64_copied:
  assumes "well_sized 64 64 s"
  shows "\<exists>s'. trans_64x64 64 64 s = Some s' \<and> copied 64 64 ({0..<64} \<times> {0..<64}) s s'"
  using diag_i[OF assms copied_refl, of 4] by (simp add: trans_64x64_def)

lemma trans_copied:
  assumes ws: "well_sized M N s" and pos: "0 \<le> M" "0 \<le> N"
  shows "\<exists>s'. trans M N s = Some s' \<and> copied M N ({0..<N} \<times> {0..<M}) s s'"
proof -
  from plain_ii[OF ws copied_refl, of 0 N 0 M] pos show ?thesis
    by (simp add: trans_def)
qed

section \<open>The verifier \<^verbatim>\<open>is_transpose\<close>\<close>

lemma loads_in_range:
  assumes ws: "well_sized M N s" and ok: "subscripts_ok N M i j"
  shows "load_A M N i j s = Some (matA s ! offset M i j)"
    and "load_B M N j i s = Some (matB s ! offset N j i)"
proof -
  have "offset M i j < length (matA s)"
    using offset_less[of i N j M] ok ws by (simp add: subscripts_ok_def well_sized_def)
  then show "load_A M N i j s = Some (matA s ! offset M i j)"
    using ok by (simp add: load_A_def)
  have "offset N j i < length (matB s)"
    using offset_less[of j M i N] ok ws by (simp add: subscripts_ok_def well_sized_def)
  moreover have "subscripts_ok M N j i" using ok by (auto simp: subscripts_ok_def)
  ultimately show "load_B M N j i s = Some (matB s ! offset N j i)"
    by (simp add: load_B_def)
qed

lemma is_transpose_j_value:
  assumes "well_sized M N s" "0 \<le> i" "i < N" "0 \<le> j"
  shows "is_transpose_j M N i j s =
           Some (if \<forall>c. j \<le> c \<and> c < M \<longrightarrow> matA s ! offset M i c = matB s ! offset N c i
                 then None else Some 0, s)"
  using assms
proof (induction M N i j s rule: is_transpose_j.induct)
  case (1 M N i j s)
  show ?case
  proof (cases "j < M")
    case False
    then show ?thesis by (subst is_transpose_j.simps) auto
  next
    case True
    then have ok: "subscripts_ok N M i j" using "1.prems" by (simp add: subscripts_ok_def)
    note ld = loads_in_range[OF "1.prems"(1) ok]
    show ?thesis
    proof (cases "matA s ! offset M i j = matB s ! offset N j i")
      case neq: False
      then have "\<not> (\<forall>c. j \<le> c \<and> c < M \<longrightarrow> matA s ! offset M i c = matB s ! offset N c i)"
        using True by auto
      then show ?thesis using True ld neq by (subst is_transpose_j.simps) simp
    next
      case eq: True
      have IH: "is_transpose_j M N i (j + 1) s =
           Some (if \<forall>c. j + 1 \<le> c \<and> c < M \<longrightarrow> matA s ! offset M i c = matB s ! offset N c i
                 then None else Some 0, s)"
        using "1.IH"[OF True ld(1) ld(2)] eq "1.prems" by simp
      have "(\<forall>c. j \<le> c \<and> c < M \<longrightarrow> matA s ! offset M i c = matB s ! offset N c i) \<longleftrightarrow>
            (\<forall>c. j + 1 \<le> c \<and> c < M \<longrightarrow> matA s ! offset M i c = matB s ! offset N c i)"
      proof (intro iffI allI impI)
        fix c assume a: "\<forall>c. j + 1 \<le> c \<and> c < M \<longrightarrow> matA s ! offset M i c = matB s ! offset N c i"
          and c: "j \<le> c \<and> c < M"
        show "matA s ! offset M i c = matB s ! offset N c i"
        proof (cases "c = j")
          case True then show ?thesis using eq by simp
        next
          case False then show ?thesis using a c by simp
        qed
      qed simp
      then show ?thesis using True ld eq IH by (subst is_transpose_j.simps) simp
    qed
  qed
qed

lemma is_transpose_i_value:
  assumes "well_sized M N s" "0 \<le> i"
  shows "is_transpose_i M N i s =
           Some (if \<forall>r c. i \<le> r \<and> r < N \<and> 0 \<le> c \<and> c < M \<longrightarrow>
                       matA s ! offset M r c = matB s ! offset N c r
                 then 1 else 0, s)"
  using assms
proof (induction M N i s rule: is_transpose_i.induct)
  case (1 M N i s)
  show ?case
  proof (cases "i < N")
    case False
    then show ?thesis by (subst is_transpose_i.simps) auto
  next
    case True
    let ?row = "\<lambda>r. \<forall>c. 0 \<le> c \<and> c < M \<longrightarrow> matA s ! offset M r c = matB s ! offset N c r"
    have row: "is_transpose_j M N i 0 s = Some (if ?row i then None else Some 0, s)"
      using is_transpose_j_value[OF "1.prems"(1) "1.prems"(2) True, of 0] by simp
    show ?thesis
    proof (cases "?row i")
      case bad: False
      then have "\<not> (\<forall>r c. i \<le> r \<and> r < N \<and> 0 \<le> c \<and> c < M \<longrightarrow>
                       matA s ! offset M r c = matB s ! offset N c r)"
        using True by (metis order_refl)
      then show ?thesis using True row bad by (subst is_transpose_i.simps) simp
    next
      case good: True
      have r: "is_transpose_j M N i 0 s = Some (None, s)" using row good by simp
      have IH: "is_transpose_i M N (i + 1) s =
           Some (if \<forall>r c. i + 1 \<le> r \<and> r < N \<and> 0 \<le> c \<and> c < M \<longrightarrow>
                       matA s ! offset M r c = matB s ! offset N c r
                 then 1 else 0, s)"
        using "1.IH"[OF True r refl refl] "1.prems" by simp
      have "(\<forall>r c. i \<le> r \<and> r < N \<and> 0 \<le> c \<and> c < M \<longrightarrow>
                       matA s ! offset M r c = matB s ! offset N c r) \<longleftrightarrow>
            (\<forall>r c. i + 1 \<le> r \<and> r < N \<and> 0 \<le> c \<and> c < M \<longrightarrow>
                       matA s ! offset M r c = matB s ! offset N c r)"
      proof (intro iffI allI impI)
        fix r c assume a: "\<forall>r c. i + 1 \<le> r \<and> r < N \<and> 0 \<le> c \<and> c < M \<longrightarrow>
                       matA s ! offset M r c = matB s ! offset N c r"
          and rc: "i \<le> r \<and> r < N \<and> 0 \<le> c \<and> c < M"
        show "matA s ! offset M r c = matB s ! offset N c r"
        proof (cases "r = i")
          case True then show ?thesis using good rc by simp
        next
          case False then show ?thesis using a rc by simp
        qed
      qed simp
      then show ?thesis using True r IH by (subst is_transpose_i.simps) simp
    qed
  qed
qed

text \<open>
  Claim C8.  With \<open>A\<close> and \<open>B\<close> of the declared sizes, \<^verbatim>\<open>is_transpose(M, N, A, B)\<close>
  returns 1 if \<^verbatim>\<open>A[i][j] == B[j][i]\<close> for all \<open>i\<close> in \<open>[0, N)\<close> and \<open>j\<close> in \<open>[0, M)\<close>,
  and returns 0 otherwise; it never reads outside the arrays, and the memory it
  leaves is the memory it was given, so neither \<open>A\<close> nor \<open>B\<close> is modified.
\<close>

theorem is_transpose_iff:
  "length (matA s) = nat (N * M) \<and> length (matB s) = nat (M * N) \<longrightarrow>
     is_transpose M N s =
       Some (if \<forall>i j. 0 \<le> i \<and> i < N \<and> 0 \<le> j \<and> j < M \<longrightarrow>
                   matA s ! offset M i j = matB s ! offset N j i
             then 1 else 0, s)"
  using is_transpose_i_value[of M N s 0] by (simp add: is_transpose_def well_sized_def)

theorem is_transpose_iff_witness:
  "length [1, 2, 3, 4 :: cint] = nat (2 * 2) \<and> length [1, 3, 2, 4 :: cint] = nat (2 * 2) \<and>
   is_transpose 2 2 \<lparr>matA = [1, 2, 3, 4], matB = [1, 3, 2, 4], stderr = []\<rparr>
     = Some (1, \<lparr>matA = [1, 2, 3, 4], matB = [1, 3, 2, 4], stderr = []\<rparr>) \<and>
   is_transpose 2 2 \<lparr>matA = [1, 2, 3, 4], matB = [1, 2, 3, 4], stderr = []\<rparr>
     = Some (0, \<lparr>matA = [1, 2, 3, 4], matB = [1, 2, 3, 4], stderr = []\<rparr>)"
proof -
  have good: "\<forall>i j. 0 \<le> i \<and> i < 2 \<and> 0 \<le> j \<and> j < 2 \<longrightarrow>
      [1, 2, 3, 4 :: cint] ! offset 2 i j = [1, 3, 2, 4] ! offset 2 j i"
  proof (intro allI impI)
    fix i j :: int
    assume "0 \<le> i \<and> i < 2 \<and> 0 \<le> j \<and> j < 2"
    then have "(i = 0 \<or> i = 1) \<and> (j = 0 \<or> j = 1)" by auto
    then show "[1, 2, 3, 4 :: cint] ! offset 2 i j = [1, 3, 2, 4] ! offset 2 j i"
      by (auto simp: offset_def)
  qed
  have bad: "\<not> (\<forall>i j. 0 \<le> i \<and> i < 2 \<and> 0 \<le> j \<and> j < 2 \<longrightarrow>
      [1, 2, 3, 4 :: cint] ! offset 2 i j = [1, 2, 3, 4] ! offset 2 j i)"
  proof
    assume "\<forall>i j. 0 \<le> i \<and> i < 2 \<and> 0 \<le> j \<and> j < 2 \<longrightarrow>
      [1, 2, 3, 4 :: cint] ! offset 2 i j = [1, 2, 3, 4] ! offset 2 j i"
    from this[rule_format, of 0 1] show False by (simp add: offset_def)
  qed
  show ?thesis
    using is_transpose_iff [of "\<lparr>matA = [1, 2, 3, 4], matB = [1, 3, 2, 4], stderr = []\<rparr>" 2 2]
      is_transpose_iff [of "\<lparr>matA = [1, 2, 3, 4], matB = [1, 2, 3, 4], stderr = []\<rparr>" 2 2]
      good bad
    by simp
qed

section \<open>The baseline transposer \<^verbatim>\<open>trans\<close>\<close>

lemma trans_checked:
  assumes ws: "well_sized M N s" and pos: "0 \<le> M" "0 \<le> N"
  shows "\<exists>s'. trans M N s = Some s' \<and> matA s' = matA s \<and> stderr s' = stderr s \<and>
           length (matB s') = length (matB s) \<and>
           (\<forall>i j. 0 \<le> i \<and> i < N \<and> 0 \<le> j \<and> j < M \<longrightarrow>
              matB s' ! offset N j i = matA s ! offset M i j) \<and>
           is_transpose M N s' = Some (1, s')"
proof -
  from trans_copied[OF ws pos] obtain s' where
    s': "trans M N s = Some s'" "copied M N ({0..<N} \<times> {0..<M}) s s'" by blast
  note fc = full_copy[OF s'(2)]
  have ws': "well_sized M N s'" using ws fc by (simp add: well_sized_def)
  have "is_transpose M N s' = Some (1, s')"
    using is_transpose_i_value[OF ws', of 0] fc by (simp add: is_transpose_def)
  with s'(1) fc show ?thesis by simp
qed

text \<open>
  Claim C4.  For \<open>M > 0\<close>, \<open>N > 0\<close> and arrays of the declared sizes, \<^verbatim>\<open>trans(M, N, A, B)\<close>
  returns with \<^verbatim>\<open>B[j][i] == A[i][j]\<close> for every \<open>i\<close> in \<open>[0, N)\<close> and \<open>j\<close> in \<open>[0, M)\<close>,
  with \<open>A\<close> unchanged, and \<^verbatim>\<open>is_transpose\<close> then returns 1.  In particular, for
  \<open>M = N = 1\<close> it sets \<^verbatim>\<open>B[0][0]\<close> to \<^verbatim>\<open>A[0][0]\<close>, and for \<open>M = N = 2\<close> and
  \<open>A = [[1, 2], [3, 4]]\<close> it yields \<open>B = [[1, 3], [2, 4]]\<close>, on which \<^verbatim>\<open>is_transpose\<close>
  returns 1.
\<close>

theorem trans_transposes:
  "(0 < M \<and> 0 < N \<and> length (matA s) = nat (N * M) \<and> length (matB s) = nat (M * N) \<longrightarrow>
      (\<exists>s'. trans M N s = Some s' \<and> matA s' = matA s \<and> stderr s' = stderr s \<and>
         length (matB s') = length (matB s) \<and>
         (\<forall>i j. 0 \<le> i \<and> i < N \<and> 0 \<le> j \<and> j < M \<longrightarrow>
            matB s' ! offset N j i = matA s ! offset M i j) \<and>
         is_transpose M N s' = Some (1, s'))) \<and>
   trans 1 1 \<lparr>matA = [a], matB = [b], stderr = e\<rparr> = Some \<lparr>matA = [a], matB = [a], stderr = e\<rparr> \<and>
   trans 2 2 \<lparr>matA = [1, 2, 3, 4], matB = [b0, b1, b2, b3], stderr = e\<rparr>
     = Some \<lparr>matA = [1, 2, 3, 4], matB = [1, 3, 2, 4], stderr = e\<rparr> \<and>
   is_transpose 2 2 \<lparr>matA = [1, 2, 3, 4], matB = [1, 3, 2, 4], stderr = e\<rparr>
     = Some (1, \<lparr>matA = [1, 2, 3, 4], matB = [1, 3, 2, 4], stderr = e\<rparr>)"
proof (intro conjI impI)
  assume "0 < M \<and> 0 < N \<and> length (matA s) = nat (N * M) \<and> length (matB s) = nat (M * N)"
  then show "\<exists>s'. trans M N s = Some s' \<and> matA s' = matA s \<and> stderr s' = stderr s \<and>
         length (matB s') = length (matB s) \<and>
         (\<forall>i j. 0 \<le> i \<and> i < N \<and> 0 \<le> j \<and> j < M \<longrightarrow>
            matB s' ! offset N j i = matA s ! offset M i j) \<and>
         is_transpose M N s' = Some (1, s')"
    using trans_checked[of M N s] by (simp add: well_sized_def)
next
  show "trans 1 1 \<lparr>matA = [a], matB = [b], stderr = e\<rparr>
      = Some \<lparr>matA = [a], matB = [a], stderr = e\<rparr>"
    by (simp add: trans_def for_loop.simps copy_cell_def load_A_def store_B_def
        subscripts_ok_def offset_def)
next
  show "trans 2 2 \<lparr>matA = [1, 2, 3, 4], matB = [b0, b1, b2, b3], stderr = e\<rparr>
     = Some \<lparr>matA = [1, 2, 3, 4], matB = [1, 3, 2, 4], stderr = e\<rparr>"
    by (simp add: trans_def for_loop.simps copy_cell_def load_A_def store_B_def
        subscripts_ok_def offset_def)
next
  show "is_transpose 2 2 \<lparr>matA = [1, 2, 3, 4], matB = [1, 3, 2, 4], stderr = e\<rparr>
     = Some (1, \<lparr>matA = [1, 2, 3, 4], matB = [1, 3, 2, 4], stderr = e\<rparr>)"
    by (simp add: is_transpose_def is_transpose_i.simps is_transpose_j.simps load_A_def
        load_B_def subscripts_ok_def offset_def)
qed

theorem trans_transposes_witness:
  "(0::int) < 3 \<and> (0::int) < 2 \<and>
   length [1, 2, 3, 4, 5, 6 :: cint] = nat (2 * 3) \<and>
   length [0, 0, 0, 0, 0, 0 :: cint] = nat (3 * 2) \<and>
   (\<exists>s'. trans 3 2 \<lparr>matA = [1, 2, 3, 4, 5, 6], matB = [0, 0, 0, 0, 0, 0], stderr = []\<rparr> = Some s' \<and>
      matB s' ! 5 = 6 \<and> matB s' ! 1 = 4 \<and> is_transpose 3 2 s' = Some (1, s'))"
proof -
  let ?s = "\<lparr>matA = [1, 2, 3, 4, 5, 6 :: cint], matB = [0, 0, 0, 0, 0, 0], stderr = []\<rparr>"
  from trans_transposes [of 3 2 ?s, THEN conjunct1] obtain s' where
    run: "trans 3 2 ?s = Some s'"
    and cells: "\<forall>i j. 0 \<le> i \<and> i < 2 \<and> 0 \<le> j \<and> j < 3 \<longrightarrow>
                  matB s' ! offset 2 j i = matA ?s ! offset 3 i j"
    and chk: "is_transpose 3 2 s' = Some (1, s')"
    by auto
  from cells[rule_format, of 1 2] have "matB s' ! 5 = 6" by (simp add: offset_def)
  moreover from cells[rule_format, of 1 0] have "matB s' ! 1 = 4" by (simp add: offset_def)
  ultimately show ?thesis using run chk by simp
qed

section \<open>The shape-specific transposers\<close>

text \<open>
  Claim C5.  With \<open>M = N = 32\<close> and arrays of 1024 cells, \<^verbatim>\<open>trans_32x32\<close>, which in
  each 8 by 8 tile copies a row with the cell on the matrix diagonal left out and
  writes that cell after the row, returns with \<^verbatim>\<open>B[j][i] == A[i][j]\<close> for all
  \<open>i\<close>, \<open>j\<close> in \<open>[0, 32)\<close>.
\<close>

theorem trans_32x32_transposes:
  "length (matA s) = 1024 \<and> length (matB s) = 1024 \<longrightarrow>
     (\<exists>s'. trans_32x32 32 32 s = Some s' \<and> matA s' = matA s \<and> stderr s' = stderr s \<and>
        length (matB s') = 1024 \<and>
        (\<forall>i j. 0 \<le> i \<and> i < 32 \<and> 0 \<le> j \<and> j < 32 \<longrightarrow>
           matB s' ! offset 32 j i = matA s ! offset 32 i j))"
proof
  assume len: "length (matA s) = 1024 \<and> length (matB s) = 1024"
  then have "well_sized 32 32 s" by (simp add: well_sized_def)
  from trans_32x32_copied[OF this] obtain s' where
    s': "trans_32x32 32 32 s = Some s'" "copied 32 32 ({0..<32} \<times> {0..<32}) s s'" by blast
  from full_copy[OF s'(2)] s'(1) len show "\<exists>s'. trans_32x32 32 32 s = Some s' \<and> matA s' = matA s \<and> stderr s' = stderr s \<and>
        length (matB s') = 1024 \<and>
        (\<forall>i j. 0 \<le> i \<and> i < 32 \<and> 0 \<le> j \<and> j < 32 \<longrightarrow>
           matB s' ! offset 32 j i = matA s ! offset 32 i j)" by simp
qed

theorem trans_32x32_transposes_witness:
  "length (map of_nat [0..<1024] :: cint list) = 1024 \<and>
   length (replicate 1024 0 :: cint list) = 1024 \<and>
   (\<exists>s'. trans_32x32 32 32 \<lparr>matA = map of_nat [0..<1024], matB = replicate 1024 0, stderr = []\<rparr> = Some s' \<and>
      matB s' ! 933 = 189)"
  using trans_32x32_transposes [of "\<lparr>matA = map of_nat [0..<1024], matB = replicate 1024 0, stderr = []\<rparr>"]
  apply (simp add: offset_def)
  apply (erule exE)
  apply (elim conjE)
  apply (drule spec[of _ 5])
  apply (drule spec[of _ 29])
  apply simp
  done

text \<open>
  Claim C6.  With \<open>M = 32\<close>, \<open>N = 64\<close> and arrays of 2048 cells, \<^verbatim>\<open>trans_32x64\<close>, which
  copies every cell of each tile of 8 rows by 4 columns with no special case for the
  diagonal, returns with \<^verbatim>\<open>B[j][i] == A[i][j]\<close> for all \<open>i\<close> in \<open>[0, 64)\<close> and
  \<open>j\<close> in \<open>[0, 32)\<close>.
\<close>

theorem trans_32x64_transposes:
  "length (matA s) = 2048 \<and> length (matB s) = 2048 \<longrightarrow>
     (\<exists>s'. trans_32x64 32 64 s = Some s' \<and> matA s' = matA s \<and> stderr s' = stderr s \<and>
        length (matB s') = 2048 \<and>
        (\<forall>i j. 0 \<le> i \<and> i < 64 \<and> 0 \<le> j \<and> j < 32 \<longrightarrow>
           matB s' ! offset 64 j i = matA s ! offset 32 i j))"
proof
  assume len: "length (matA s) = 2048 \<and> length (matB s) = 2048"
  then have "well_sized 32 64 s" by (simp add: well_sized_def)
  from trans_32x64_copied[OF this] obtain s' where
    s': "trans_32x64 32 64 s = Some s'" "copied 32 64 ({0..<64} \<times> {0..<32}) s s'" by blast
  from full_copy[OF s'(2)] s'(1) len
  show "\<exists>s'. trans_32x64 32 64 s = Some s' \<and> matA s' = matA s \<and> stderr s' = stderr s \<and>
        length (matB s') = 2048 \<and>
        (\<forall>i j. 0 \<le> i \<and> i < 64 \<and> 0 \<le> j \<and> j < 32 \<longrightarrow>
           matB s' ! offset 64 j i = matA s ! offset 32 i j)" by simp
qed

theorem trans_32x64_transposes_witness:
  "length (map of_nat [0..<2048] :: cint list) = 2048 \<and>
   length (replicate 2048 0 :: cint list) = 2048 \<and>
   (\<exists>s'. trans_32x64 32 64 \<lparr>matA = map of_nat [0..<2048], matB = replicate 2048 0, stderr = []\<rparr> = Some s' \<and>
      matB s' ! 1981 = 1982)"
  using trans_32x64_transposes [of "\<lparr>matA = map of_nat [0..<2048], matB = replicate 2048 0, stderr = []\<rparr>"]
  apply (simp add: offset_def)
  apply (erule exE)
  apply (elim conjE)
  apply (drule spec[of _ 61])
  apply (drule spec[of _ 30])
  apply simp
  done

text \<open>
  Claim C7.  With \<open>M = N = 64\<close> and arrays of 4096 cells, the tiled \<^verbatim>\<open>trans_64x64\<close>
  and the baseline \<^verbatim>\<open>trans\<close> return, and they leave the same memory: the same \<open>B\<close>,
  the same \<open>A\<close> and the same error stream.
\<close>

theorem trans_64x64_equals_trans:
  "length (matA s) = 4096 \<and> length (matB s) = 4096 \<longrightarrow>
     trans_64x64 64 64 s = trans 64 64 s \<and> trans 64 64 s \<noteq> None"
proof
  assume len: "length (matA s) = 4096 \<and> length (matB s) = 4096"
  then have ws: "well_sized 64 64 s" by (simp add: well_sized_def)
  from trans_64x64_copied[OF ws] obtain s1 where
    s1: "trans_64x64 64 64 s = Some s1" "copied 64 64 ({0..<64} \<times> {0..<64}) s s1" by blast
  from trans_copied[OF ws] obtain s2 where
    s2: "trans 64 64 s = Some s2" "copied 64 64 ({0..<64} \<times> {0..<64}) s s2" by auto
  from copied_unique[OF ws _ s1(2) s2(2)] have "s1 = s2" by simp
  with s1 s2 show "trans_64x64 64 64 s = trans 64 64 s \<and> trans 64 64 s \<noteq> None" by simp
qed

theorem trans_64x64_equals_trans_witness:
  "length (map of_nat [0..<4096] :: cint list) = 4096 \<and>
   length (replicate 4096 0 :: cint list) = 4096 \<and>
   trans_64x64 64 64 \<lparr>matA = map of_nat [0..<4096], matB = replicate 4096 0, stderr = []\<rparr>
     = trans 64 64 \<lparr>matA = map of_nat [0..<4096], matB = replicate 4096 0, stderr = []\<rparr> \<and>
   trans 64 64 \<lparr>matA = map of_nat [0..<4096], matB = replicate 4096 0, stderr = []\<rparr> \<noteq> None"
  using trans_64x64_equals_trans [of "\<lparr>matA = map of_nat [0..<4096], matB = replicate 4096 0, stderr = []\<rparr>"]
  by simp

text \<open>
  Claim C10.  Each shape-specific transposer is guarded by its own shape test: called
  with any other \<open>(M, N)\<close>, \<^verbatim>\<open>trans_32x32\<close>, \<^verbatim>\<open>trans_32x64\<close> and \<^verbatim>\<open>trans_64x64\<close>
  return with the whole memory as it was, so \<open>B\<close> is unchanged and nothing is printed.
\<close>

theorem shape_guard_no_op:
  "(\<not> (M = 32 \<and> N = 32) \<longrightarrow> trans_32x32 M N s = Some s) \<and>
   (\<not> (M = 32 \<and> N = 64) \<longrightarrow> trans_32x64 M N s = Some s) \<and>
   (\<not> (M = 64 \<and> N = 64) \<longrightarrow> trans_64x64 M N s = Some s)"
  by (auto simp: trans_32x32_def trans_32x64_def trans_64x64_def)

theorem shape_guard_no_op_witness:
  "trans_32x32 64 32 \<lparr>matA = replicate 2048 1, matB = replicate 2048 2, stderr = []\<rparr>
     = Some \<lparr>matA = replicate 2048 1, matB = replicate 2048 2, stderr = []\<rparr> \<and>
   trans_32x64 64 32 \<lparr>matA = replicate 2048 1, matB = replicate 2048 2, stderr = []\<rparr>
     = Some \<lparr>matA = replicate 2048 1, matB = replicate 2048 2, stderr = []\<rparr> \<and>
   trans_64x64 64 32 \<lparr>matA = replicate 2048 1, matB = replicate 2048 2, stderr = []\<rparr>
     = Some \<lparr>matA = replicate 2048 1, matB = replicate 2048 2, stderr = []\<rparr>"
  using shape_guard_no_op [of 64 32 "\<lparr>matA = replicate 2048 1, matB = replicate 2048 2, stderr = []\<rparr>"]
  by simp

section \<open>The dispatcher \<^verbatim>\<open>transpose_submit\<close>\<close>

text \<open>
  Claim C9.  For every \<open>(M, N)\<close> with \<open>M \<le> 0\<close> or \<open>N \<le> 0\<close>, the call
  \<^verbatim>\<open>transpose_submit(M, N, A, B)\<close> returns normally, appends the (non-empty) diagnostic
  about the dimensions to the error stream, and leaves every cell of \<open>B\<close> (and of \<open>A\<close>)
  as it was.
\<close>

theorem transpose_submit_nonpositive:
  "M \<le> 0 \<or> N \<le> 0 \<Longrightarrow>
     \<exists>s'. transpose_submit M N s = Some s' \<and> matB s' = matB s \<and> matA s' = matA s \<and>
          stderr s' = stderr s @ msg_dimensions \<and> msg_dimensions \<noteq> []"
  by (auto simp: transpose_submit_def fprintf_stderr_def msg_dimensions_def)

theorem transpose_submit_nonpositive_witness:
  "((0::int) \<le> 0 \<or> (5::int) \<le> 0) \<and>
   transpose_submit 0 5 \<lparr>matA = [], matB = [], stderr = []\<rparr>
     = Some \<lparr>matA = [], matB = [], stderr = msg_dimensions\<rparr>"
  using transpose_submit_nonpositive [of 0 5 "\<lparr>matA = [], matB = [], stderr = []\<rparr>"]
  by auto

text \<open>
  Claim C1, at the supported shape \<open>(32, 32)\<close>.  On the input \<open>failing_32x32\<close> the call
  \<^verbatim>\<open>transpose_submit(32, 32, A, B)\<close> prints the diagnostic of the compatibility check
  and returns without writing \<open>B\<close>: afterwards \<^verbatim>\<open>A[0][1]\<close> is 1 and \<^verbatim>\<open>B[1][0]\<close> is
  still 0, and \<^verbatim>\<open>is_transpose(32, 32, A, B)\<close> returns 0.
\<close>

theorem transpose_submit_32x32_rejected:
  "transpose_submit 32 32 failing_32x32 = Some (fprintf_stderr msg_square failing_32x32) \<and>
   matA failing_32x32 ! offset 32 0 1 = 1 \<and>
   map_option (\<lambda>s'. matB s' ! offset 32 1 0) (transpose_submit 32 32 failing_32x32) = Some 0 \<and>
   is_transpose 32 32 (fprintf_stderr msg_square failing_32x32)
     = Some (0, fprintf_stderr msg_square failing_32x32)"
  apply (intro conjI)
     apply (simp add: transpose_submit_def)
    apply (simp add: failing_32x32_def offset_def)
   apply (simp add: transpose_submit_def fprintf_stderr_def failing_32x32_def offset_def)
  apply (simp add: is_transpose_def is_transpose_i.simps is_transpose_j.simps load_A_def load_B_def
      subscripts_ok_def offset_def fprintf_stderr_def failing_32x32_def)
  done

text \<open>
  Claim C3, at the shape \<open>(1, 1)\<close>, which is none of the supported shapes.  The call
  \<^verbatim>\<open>transpose_submit(1, 1, A, B)\<close> returns with the whole memory as it was: \<open>B\<close> is
  unchanged, and so is the error stream, so no diagnostic is printed.
\<close>

theorem transpose_submit_1x1_silent:
  "transpose_submit 1 1 \<lparr>matA = [a], matB = [b], stderr = e\<rparr>
     = Some \<lparr>matA = [a], matB = [b], stderr = e\<rparr>"
  by (simp add: transpose_submit_def)

subsection \<open>The compatibility check (lines 30 to 34)\<close>

lemma copy_cell_stderr: "copy_cell M N r c u = Some u' \<Longrightarrow> stderr u' = stderr u"
  by (auto simp: copy_cell_def load_A_def store_B_def split: if_splits Option.bind_splits)

lemma diag_nest_stderr:
  assumes run: "for_loop 0 N t (\<lambda>i.
                 for_loop 0 M t (\<lambda>j.
                   for_loop i (i + t) 1 (\<lambda>ii u. do {
                     u' \<leftarrow> for_loop j (j + t) 1 (\<lambda>jj v.
                             if \<not> (ii = jj \<and> i = j) then copy_cell M N ii jj v else Some v) u;
                     if i = j then copy_cell M N ii ii u' else Some u'
                   }))) s = Some s'"
  shows "stderr s' = stderr s"
proof -
  let ?P = "\<lambda>u. stderr u = stderr s"
  have jj: "?P u'"
    if "for_loop j (j + t) 1 (\<lambda>jj v.
          if \<not> (ii = jj \<and> i = j) then copy_cell M N ii jj v else Some v) u = Some u'" "?P u"
    for i j ii u u'
    by (rule for_loop_preserves[where P = ?P, OF _ that])
       (auto split: if_splits dest: copy_cell_stderr)
  have row: "?P u'"
    if "do {
          w \<leftarrow> for_loop j (j + t) 1 (\<lambda>jj v.
                 if \<not> (ii = jj \<and> i = j) then copy_cell M N ii jj v else Some v) u;
          if i = j then copy_cell M N ii ii w else Some w
        } = Some u'" "?P u"
    for i j ii u u'
  proof -
    from that(1) obtain w where
      w: "for_loop j (j + t) 1 (\<lambda>jj v.
            if \<not> (ii = jj \<and> i = j) then copy_cell M N ii jj v else Some v) u = Some w"
        "(if i = j then copy_cell M N ii ii w else Some w) = Some u'"
      unfolding bind_eq_Some_conv by blast
    from jj[OF w(1) that(2)] have "?P w" .
    with w(2) show ?thesis by (auto split: if_splits dest: copy_cell_stderr)
  qed
  have ii: "?P u'"
    if "for_loop i (i + t) 1 (\<lambda>ii u. do {
          w \<leftarrow> for_loop j (j + t) 1 (\<lambda>jj v.
                 if \<not> (ii = jj \<and> i = j) then copy_cell M N ii jj v else Some v) u;
          if i = j then copy_cell M N ii ii w else Some w
        }) u = Some u'" "?P u"
    for i j u u'
    by (rule for_loop_preserves[where P = ?P, OF _ that]) (rule row)
  have j: "?P u'"
    if "for_loop 0 M t (\<lambda>j. for_loop i (i + t) 1 (\<lambda>ii u. do {
          w \<leftarrow> for_loop j (j + t) 1 (\<lambda>jj v.
                 if \<not> (ii = jj \<and> i = j) then copy_cell M N ii jj v else Some v) u;
          if i = j then copy_cell M N ii ii w else Some w
        })) u = Some u'" "?P u"
    for i u u'
    by (rule for_loop_preserves[where P = ?P, OF _ that]) (rule ii)
  show ?thesis
    by (rule for_loop_preserves[where P = ?P, OF _ run refl]) (rule j)
qed

lemma msg_square_nonempty: "msg_square \<noteq> []"
  by (simp add: msg_square_def)

lemma fprintf_stderr_neq: "msg \<noteq> [] \<Longrightarrow> s \<noteq> fprintf_stderr msg s"
proof
  assume "msg \<noteq> []" and eq: "s = fprintf_stderr msg s"
  from eq have "stderr s = stderr (fprintf_stderr msg s)" by simp
  with \<open>msg \<noteq> []\<close> show False by (simp add: fprintf_stderr_def)
qed

lemma transpose_submit_64x64: "transpose_submit 64 64 s = trans_64x64 64 64 s"
  by (simp add: transpose_submit_def trans_64x64_def)

lemma not_rejected_64x64: "\<not> shape_check_rejects 64 64 s"
proof
  assume "shape_check_rejects 64 64 s"
  then have run: "trans_64x64 64 64 s = Some (fprintf_stderr msg_square s)"
    by (simp add: shape_check_rejects_def transpose_submit_64x64)
  then have "stderr (fprintf_stderr msg_square s) = stderr s"
    by (intro diag_nest_stderr[of 64 4 64]) (simp add: trans_64x64_def)
  then show False using msg_square_nonempty by (simp add: fprintf_stderr_def)
qed

lemma one_cell_64x64_result:
  "transpose_submit 64 64 one_cell_64x64
     = Some (one_cell_64x64\<lparr>matB := (replicate 4096 0)[64 := 1]\<rparr>)"
proof -
  let ?t = "one_cell_64x64\<lparr>matB := (replicate 4096 0)[64 := 1]\<rparr>"
  have ws: "well_sized 64 64 one_cell_64x64"
    by (simp add: well_sized_def one_cell_64x64_def)
  from trans_64x64_copied[OF ws] obtain s' where
    s': "trans_64x64 64 64 one_cell_64x64 = Some s'"
        "copied 64 64 ({0..<64} \<times> {0..<64}) one_cell_64x64 s'" by blast
  have "copied 64 64 ({0..<64} \<times> {0..<64}) one_cell_64x64 ?t"
    unfolding copied_def
  proof (intro conjI allI impI)
    fix r c assume ok: "subscripts_ok 64 64 r c"
    then have lt: "offset 64 r c < 4096" "offset 64 c r < 4096"
      using offset_less[of r 64 c 64] offset_less[of c 64 r 64] by (simp_all add: subscripts_ok_def)
    have b: "offset 64 r c = 64 \<longleftrightarrow> r = 1 \<and> c = 0"
      using offset_inj[of r c 64 1 0] ok by (simp add: subscripts_ok_def) (simp add: offset_def)
    have a: "offset 64 c r = 1 \<longleftrightarrow> c = 0 \<and> r = 1"
      using offset_inj[of c r 64 0 1] ok by (simp add: subscripts_ok_def) (simp add: offset_def)
    have "matB ?t ! offset 64 r c = (if r = 1 \<and> c = 0 then 1 else 0)"
      using lt b by (auto simp: one_cell_64x64_def nth_list_update)
    moreover have "matA one_cell_64x64 ! offset 64 c r = (if r = 1 \<and> c = 0 then 1 else 0)"
      using lt a by (auto simp: one_cell_64x64_def nth_list_update)
    moreover have "(c, r) \<in> {0..<64} \<times> {0..<64}" using ok by (simp add: subscripts_ok_def)
    ultimately show "matB ?t ! offset 64 r c =
       (if (c, r) \<in> {0..<64} \<times> {0..<64} then matA one_cell_64x64 ! offset 64 c r
        else matB one_cell_64x64 ! offset 64 r c)"
      by simp
  qed (simp_all add: one_cell_64x64_def)
  from copied_unique[OF ws _ s'(2) this] have "s' = ?t" by simp
  with s'(1) show ?thesis by (simp add: transpose_submit_64x64)
qed

text \<open>
  Claim C2 as stated fails at \<open>(64, 64)\<close>: the shape is supported, yet the compatibility
  check does not reject it.  On the input \<open>one_cell_64x64\<close> the call gets past the check
  and runs the 64 by 64 block, which writes \<^verbatim>\<open>B[1][0] = 1\<close>; the error stream stays
  empty.
\<close>

theorem shape_check_accepts_64x64:
  "supported_shape 64 64 \<and>
   transpose_submit 64 64 one_cell_64x64
     = Some (one_cell_64x64\<lparr>matB := (replicate 4096 0)[64 := 1]\<rparr>) \<and>
   stderr (one_cell_64x64\<lparr>matB := (replicate 4096 0)[64 := 1]\<rparr>) = [] \<and>
   \<not> shape_check_rejects 64 64 one_cell_64x64"
  using one_cell_64x64_result not_rejected_64x64
  by (simp add: supported_shape_def one_cell_64x64_def)

text \<open>
  Claim C2, amended.  For positive \<open>M\<close> and \<open>N\<close>, the compatibility check of
  \<^verbatim>\<open>transpose_submit\<close> rejects \<open>(M, N)\<close> if and only if \<open>(M, N)\<close> is \<open>(32, 32)\<close> or
  \<open>(32, 64)\<close>.
\<close>

theorem shape_check_rejects_iff:
  "0 < M \<and> 0 < N \<longrightarrow> (shape_check_rejects M N s \<longleftrightarrow> M = 32 \<and> (N = 32 \<or> N = 64))"
proof
  assume pos: "0 < M \<and> 0 < N"
  show "shape_check_rejects M N s \<longleftrightarrow> M = 32 \<and> (N = 32 \<or> N = 64)"
  proof (cases "M = 32 \<and> (N = 32 \<or> N = 64)")
    case True
    then show ?thesis using pos by (auto simp: shape_check_rejects_def transpose_submit_def)
  next
    case False
    show ?thesis
    proof (cases "M = 64 \<and> N = 64")
      case True
      then show ?thesis using not_rejected_64x64 by simp
    next
      case other: False
      have "transpose_submit M N s = Some s"
        using pos False other by (auto simp: transpose_submit_def)
      then show ?thesis
        using False fprintf_stderr_neq[OF msg_square_nonempty, of s]
        by (simp add: shape_check_rejects_def)
    qed
  qed
qed

theorem shape_check_rejects_iff_witness:
  "(0::int) < 32 \<and> (0::int) < 64 \<and>
   shape_check_rejects 32 64 \<lparr>matA = replicate 2048 7, matB = replicate 2048 0, stderr = []\<rparr>"
  using shape_check_rejects_iff [of 32 64 "\<lparr>matA = replicate 2048 7, matB = replicate 2048 0, stderr = []\<rparr>"]
  by simp

end
